theory Spec2Isabelle
  imports Complex_Main "HOL-Library.Sublist" "HOL-Library.Char_ord" "HOL-Library.List_Lexorder"
    "HOL-Library.AList"
begin

section \<open>Backfilling \<open>project_path\<close> in session records\<close>

text \<open>
  A shallow embedding of \<^verbatim>\<open>scripts/migrate_session_paths.py\<close>. Python strings are
  modelled as \<open>string\<close>; one \<open>char\<close> stands for one code point, so the model covers
  text whose code points are below 256. The functions of \<^verbatim>\<open>pathlib\<close> and
  \<^verbatim>\<open>json\<close> that the script calls are not part of the script: they are fields of an
  environment record, and the script's own logic is translated function by function.
\<close>

subsection \<open>String primitives of Python\<close>

text \<open>
  \<^verbatim>\<open>str.isspace\<close> on one code point below 256: TAB, LF, VT, FF, CR, the separators
  0x1C to 0x1F, the blank, NEL (0x85) and the no-break space (0xA0). \<^verbatim>\<open>str.strip()\<close>
  and the class \<^verbatim>\<open>\s\<close> of \<^verbatim>\<open>re\<close> use the same set.
\<close>

definition is_space :: "char \<Rightarrow> bool" where
  "is_space c \<longleftrightarrow> c \<in> set [CHR 0x09, CHR 0x0A, CHR 0x0B, CHR 0x0C, CHR 0x0D,
     CHR 0x1C, CHR 0x1D, CHR 0x1E, CHR 0x1F, CHR 0x20, CHR 0x85, CHR 0xA0]"

text \<open>The line boundaries of \<^verbatim>\<open>str.splitlines\<close> below 256 (CR LF counts as one).\<close>

definition is_linebreak :: "char \<Rightarrow> bool" where
  "is_linebreak c \<longleftrightarrow> c \<in> set [CHR 0x0A, CHR 0x0B, CHR 0x0C, CHR 0x0D,
     CHR 0x1C, CHR 0x1D, CHR 0x1E, CHR 0x85]"

definition lstrip :: "string \<Rightarrow> string" where
  "lstrip s = dropWhile is_space s"

definition rstrip :: "string \<Rightarrow> string" where
  "rstrip s = rev (dropWhile is_space (rev s))"

definition strip :: "string \<Rightarrow> string" where
  "strip s = rstrip (lstrip s)"

text \<open>\<^verbatim>\<open>s.rstrip(chars)\<close>: drop the trailing characters that belong to \<open>chars\<close>.\<close>

definition rstrip_chars :: "string \<Rightarrow> string \<Rightarrow> string" where
  "rstrip_chars chars s = rev (dropWhile (\<lambda>c. c \<in> set chars) (rev s))"

definition startswith :: "string \<Rightarrow> string \<Rightarrow> bool" where
  "startswith s p = prefix p s"

text \<open>\<^verbatim>\<open>sub in s\<close>, by scanning \<open>s\<close> from the left.\<close>

fun contains :: "string \<Rightarrow> string \<Rightarrow> bool" where
  "contains [] sub = (sub = [])"
| "contains (c # cs) sub = (prefix sub (c # cs) \<or> contains cs sub)"

text \<open>\<^verbatim>\<open>s.find(sub)\<close>: the lowest index where \<open>sub\<close> starts, \<open>None\<close> for Python's -1.\<close>

fun find_str :: "string \<Rightarrow> string \<Rightarrow> nat option" where
  "find_str [] sub = (if sub = [] then Some 0 else None)"
| "find_str (c # cs) sub =
     (if prefix sub (c # cs) then Some 0 else map_option Suc (find_str cs sub))"

text \<open>
  \<^verbatim>\<open>s.splitlines()\<close>: the lines of \<open>s\<close> without their line boundaries; the empty
  string has no line, and a boundary at the very end opens no further line.
\<close>

fun splitlines_acc :: "string \<Rightarrow> string \<Rightarrow> string list" where
  "splitlines_acc acc [] = (if acc = [] then [] else [rev acc])"
| "splitlines_acc acc (c # cs) =
     (if c = CHR 0x0D then
        (case cs of
           d # ds \<Rightarrow> if d = CHR 0x0A then rev acc # splitlines_acc [] ds
                     else rev acc # splitlines_acc [] cs
         | [] \<Rightarrow> rev acc # splitlines_acc [] cs)
      else if is_linebreak c then rev acc # splitlines_acc [] cs
      else splitlines_acc (c # acc) cs)"

definition splitlines :: "string \<Rightarrow> string list" where
  "splitlines s = splitlines_acc [] s"

text \<open>\<^verbatim>\<open>sep.join(parts)\<close>.\<close>

fun join :: "string \<Rightarrow> string list \<Rightarrow> string" where
  "join sep [] = []"
| "join sep [p] = p"
| "join sep (p # q # ps) = p @ sep @ join sep (q # ps)"

subsection \<open>The environment: \<^verbatim>\<open>pathlib\<close>, \<^verbatim>\<open>json\<close> and the file system\<close>

text \<open>
  A decoded JSON value. Nothing in the script looks inside a number, so a float is kept
  as its literal. A dict is the list of its items in insertion order: a key is looked up
  with \<open>map_of\<close> and set with \<open>AList.update\<close>, which keeps the place of a key that
  is present and appends a new one, as Python's dict does.
\<close>

datatype json =
    JNull
  | JBool bool
  | JInt int
  | JFloat string
  | JStr string
  | JList "json list"
  | JDict "(string \<times> json) list"

text \<open>
  How one call of \<^verbatim>\<open>Path.write_text\<close> ends. The call opens the file in mode
  \<^verbatim>\<open>'w'\<close>, which truncates it, and then writes the text. \<open>OpenFailed\<close>: the open
  raised, the file is as it was. \<open>WriteFailed n\<close>: the open succeeded and the write
  raised after \<open>n\<close> characters had reached the file (0 when the text cannot be encoded).
\<close>

datatype write_outcome = Written | OpenFailed | WriteFailed nat

text \<open>
  The exceptions that the path queries raise: \<^verbatim>\<open>Path.expanduser\<close> raises
  \<^verbatim>\<open>RuntimeError\<close> when the home directory of a \<^verbatim>\<open>~user\<close> prefix cannot be
  determined, and \<^verbatim>\<open>Path.is_dir\<close> lets through the errors of \<^verbatim>\<open>stat\<close> other than
  a missing path (\<^verbatim>\<open>PermissionError\<close>, a name that is too long). The script calls
  both outside its two \<^verbatim>\<open>try\<close> blocks, so an exception of theirs ends the run.
\<close>

datatype py_exn = RuntimeError | OSError

text \<open>
  The library calls of the script, as functions of their arguments; the path queries
  answer for the current file system. \<open>expanduser\<close> and \<open>is_dir\<close> return \<open>Inl\<close> where
  the call raises. \<open>loads\<close> and \<open>dumps\<close> return \<open>None\<close> where \<^verbatim>\<open>json.loads\<close> and
  \<^verbatim>\<open>json.dumps\<close> raise (the script catches these). \<open>glob\<close> lists the files of the
  configuration directory that match \<^verbatim>\<open>context-*.json\<close>.
\<close>

record env =
  expanduser :: "string \<Rightarrow> py_exn + string"
  is_absolute :: "string \<Rightarrow> bool"
  is_dir :: "string \<Rightarrow> py_exn + bool"
  resolve :: "string \<Rightarrow> string"
  loads :: "string \<Rightarrow> json option"
  dumps :: "json \<Rightarrow> string option"
  write_outcome_of :: "string \<Rightarrow> string \<Rightarrow> write_outcome"
  glob :: "string list"

text \<open>
  The mutable part: the text of every readable file (\<open>None\<close>: \<^verbatim>\<open>read_text\<close> raises)
  and the lines printed so far.
\<close>

record state =
  disk :: "string \<rightharpoonup> string"
  stdout :: "string list"

subsection \<open>Path validator\<close>

definition PROJECT_ROOT_MARKERS :: "string list" where
  "PROJECT_ROOT_MARKERS = [''Active project root:'', ''Project set to'']"

text \<open>
  Lines 24 to 26. \<open>Inl\<close>: the call raised. Python's \<^verbatim>\<open>and\<close> asks \<^verbatim>\<open>is_dir\<close> only
  for an absolute path.
\<close>

definition is_abs_dir :: "env \<Rightarrow> string \<Rightarrow> py_exn + bool" where
  "is_abs_dir e path_str =
     (case expanduser e path_str of
        Inl x \<Rightarrow> Inl x
      | Inr p \<Rightarrow> if is_absolute e p then is_dir e p else Inr False)"

text \<open>Lines 29 and 30.\<close>

definition normalize_path :: "env \<Rightarrow> string \<Rightarrow> py_exn + string" where
  "normalize_path e path_str =
     (case expanduser e path_str of
        Inl x \<Rightarrow> Inl x
      | Inr p \<Rightarrow> Inr (resolve e p))"

subsection \<open>Candidate extractor\<close>

text \<open>
  The characters a token of \<^verbatim>\<open>(/[^\s\"'<>]+)\<close> may continue with.
\<close>

definition token_char :: "char \<Rightarrow> bool" where
  "token_char c \<longleftrightarrow> \<not> is_space c \<and> c \<notin> set [CHR 0x22, CHR 0x27, CHR ''<'', CHR ''>'']"

text \<open>
  \<^verbatim>\<open>re.findall\<close> for that pattern: scanning from the left, a slash followed by at
  least one token character starts a match, which runs as far as token characters go;
  the scan goes on behind the match.
\<close>

function findall_paths :: "string \<Rightarrow> string list" where
  "findall_paths [] = []"
| "findall_paths (c # cs) =
     (if c = CHR ''/'' \<and> takeWhile token_char cs \<noteq> []
      then (c # takeWhile token_char cs) # findall_paths (dropWhile token_char cs)
      else findall_paths cs)"
  by pat_completeness auto
termination
  by (relation "measure length") (auto simp: length_dropWhile_le less_Suc_eq_le)

fun filter_tokens :: "string list \<Rightarrow> string list" where
  "filter_tokens [] = []"
| "filter_tokens (c # cs) =
     (let c' = rstrip_chars ''.,;:)]}'' c
      in if startswith c' ''//'' then filter_tokens cs else c' # filter_tokens cs)"

definition extract_absolute_paths :: "string \<Rightarrow> string list" where
  "extract_absolute_paths text = filter_tokens (findall_paths text)"

subsection \<open>Candidate scorer\<close>

text \<open>The loop over the markers of \<^verbatim>\<open>score_candidate\<close>, with the running score.\<close>

fun marker_bonus :: "string list \<Rightarrow> string \<Rightarrow> string \<Rightarrow> int \<Rightarrow> int" where
  "marker_bonus [] path context_text score = score"
| "marker_bonus (marker # ms) path context_text score =
     marker_bonus ms path context_text
       (if contains context_text (marker @ '' '' @ path) then score + 50 else score)"

text \<open>Lines 45 to 55; an exception of the directory check is passed on.\<close>

definition score_candidate :: "env \<Rightarrow> string \<Rightarrow> string \<Rightarrow> py_exn + int" where
  "score_candidate e path context_text =
     (case is_abs_dir e path of
        Inl x \<Rightarrow> Inl x
      | Inr d \<Rightarrow>
          Inr (let score = 0;
                   score = (if d then score + 10 else score);
                   score = marker_bonus PROJECT_ROOT_MARKERS path context_text score;
                   score = (if contains path ''/home/'' then score + 2 else score)
               in score + max 0 (20 - int (length path) div 8)))"

subsection \<open>Inference\<close>

text \<open>
  Lines 83 to 89, what one marker adds for one turn's \<open>content\<close>. The text \<open>maybe\<close>
  begins with a slash where \<^verbatim>\<open>splitlines()[0]\<close> is taken, so it has a first line
  (\<open>splitlines_nonempty\<close> below); the empty case adds nothing.
\<close>

definition marker_candidate :: "string \<Rightarrow> string \<Rightarrow> string list" where
  "marker_candidate marker content =
     (case find_str content marker of
        None \<Rightarrow> []
      | Some idx \<Rightarrow>
          (let maybe = strip (drop (idx + length marker) content)
           in if startswith maybe ''/''
              then (case splitlines maybe of
                      [] \<Rightarrow> []
                    | l # _ \<Rightarrow> (let line = strip l in if line \<noteq> [] then [line] else []))
              else []))"

text \<open>Line 82, the loop over the markers.\<close>

fun marker_loop :: "string list \<Rightarrow> string \<Rightarrow> string list" where
  "marker_loop [] content = []"
| "marker_loop (marker # ms) content = marker_candidate marker content @ marker_loop ms content"

text \<open>
  Lines 72 to 90, the loop over the turns; the accumulator holds \<open>candidates\<close> and
  \<open>context_blob_parts\<close>.
\<close>

fun turns_loop :: "json list \<Rightarrow> string list \<times> string list \<Rightarrow> string list \<times> string list" where
  "turns_loop [] acc = acc"
| "turns_loop (turn # ts) (candidates, parts) =
     (case turn of
        JDict d \<Rightarrow>
          (case map_of d ''content'' of
             Some (JStr content) \<Rightarrow>
               turns_loop ts
                 (candidates @ marker_loop PROJECT_ROOT_MARKERS content
                    @ extract_absolute_paths content,
                  parts @ [content])
           | _ \<Rightarrow> turns_loop ts (candidates, parts))
      | _ \<Rightarrow> turns_loop ts (candidates, parts))"

text \<open>Lines 63 to 90: the candidates and the parts of the context blob of a record.\<close>

definition collect_evidence :: "(string \<times> json) list \<Rightarrow> string list \<times> string list" where
  "collect_evidence payload =
     (let acc = (case map_of payload ''title'' of
                   Some (JStr title) \<Rightarrow>
                     (if startswith title ''/'' then [strip title] else [], [title])
                 | _ \<Rightarrow> ([], []))
      in case (case map_of payload ''turns'' of None \<Rightarrow> JList [] | Some t \<Rightarrow> t) of
           JList turns \<Rightarrow> turns_loop turns acc
         | _ \<Rightarrow> acc)"

text \<open>
  Lines 96 to 102: score each candidate once, in order of first appearance. The first
  score that raises ends the loop.
\<close>

fun rank_loop ::
  "env \<Rightarrow> string \<Rightarrow> string list \<Rightarrow> string list \<Rightarrow> py_exn + (int \<times> string) list" where
  "rank_loop e context_blob seen [] = Inr []"
| "rank_loop e context_blob seen (c # cs) =
     (if c \<in> set seen then rank_loop e context_blob seen cs
      else (case score_candidate e c context_blob of
              Inl x \<Rightarrow> Inl x
            | Inr s \<Rightarrow>
                (case rank_loop e context_blob (c # seen) cs of
                   Inl x \<Rightarrow> Inl x
                 | Inr rs \<Rightarrow> Inr ((s, c) # rs))))"

text \<open>
  Line 104: Python's sort is stable, also with \<^verbatim>\<open>reverse=True\<close>; so is \<open>sort_key\<close>,
  here on the negated score.
\<close>

definition ranked :: "env \<Rightarrow> (string \<times> json) list \<Rightarrow> py_exn + (int \<times> string) list" where
  "ranked e payload =
     (let (candidates, parts) = collect_evidence payload
      in case rank_loop e (join [CHR 0x0A] parts) [] candidates of
           Inl x \<Rightarrow> Inl x
         | Inr rs \<Rightarrow> Inr (sort_key (\<lambda>x. - fst x) rs))"

text \<open>
  Lines 63 to 110. With candidates there is a ranked entry (\<open>ranked_nonempty\<close> below),
  so the empty case of the ranking stands for no run of the script.
\<close>

definition infer_from_text :: "env \<Rightarrow> (string \<times> json) list \<Rightarrow> py_exn + string option" where
  "infer_from_text e payload =
     (if fst (collect_evidence payload) = [] then Inr None
      else case ranked e payload of
             Inl x \<Rightarrow> Inl x
           | Inr [] \<Rightarrow> Inr None
           | Inr ((best_score, best) # _) \<Rightarrow>
               if best_score < 10 then Inr None
               else (case is_abs_dir e best of
                       Inl x \<Rightarrow> Inl x
                     | Inr d \<Rightarrow>
                         if \<not> d then Inr None
                         else (case normalize_path e best of
                                 Inl x \<Rightarrow> Inl x
                               | Inr n \<Rightarrow> Inr (Some n))))"

text \<open>Lines 58 to 110.\<close>

definition infer_project_path :: "env \<Rightarrow> (string \<times> json) list \<Rightarrow> py_exn + string option" where
  "infer_project_path e payload =
     (case map_of payload ''project_path'' of
        Some (JStr existing) \<Rightarrow>
          (case is_abs_dir e existing of
             Inl x \<Rightarrow> Inl x
           | Inr d \<Rightarrow>
               if d then (case normalize_path e existing of
                            Inl x \<Rightarrow> Inl x
                          | Inr n \<Rightarrow> Inr (Some n))
               else infer_from_text e payload)
      | _ \<Rightarrow> infer_from_text e payload)"

subsection \<open>Record processor\<close>

text \<open>\<^verbatim>\<open>Path.name\<close>: the last component of a path.\<close>

definition path_name :: "string \<Rightarrow> string" where
  "path_name p = rev (takeWhile (\<lambda>c. c \<noteq> CHR ''/'') (rev p))"

text \<open>Line 115: read and decode the file; \<open>None\<close> where the \<^verbatim>\<open>try\<close> block raises.\<close>

definition read_payload :: "env \<Rightarrow> state \<Rightarrow> string \<Rightarrow> json option" where
  "read_payload e st path = (case disk st path of None \<Rightarrow> None | Some text \<Rightarrow> loads e text)"

text \<open>
  \<^verbatim>\<open>path.write_text(text)\<close>: whether it returned, and the disk afterwards.
\<close>

definition write_text :: "env \<Rightarrow> state \<Rightarrow> string \<Rightarrow> string \<Rightarrow> bool \<times> state" where
  "write_text e st path text =
     (case write_outcome_of e path text of
        Written \<Rightarrow> (True, st\<lparr>disk := (disk st)(path \<mapsto> text)\<rparr>)
      | OpenFailed \<Rightarrow> (False, st)
      | WriteFailed n \<Rightarrow> (False, st\<lparr>disk := (disk st)(path \<mapsto> take n text)\<rparr>))"

text \<open>Lines 130 to 139, once \<open>inferred\<close> is known and not empty.\<close>

definition store_inferred ::
  "env \<Rightarrow> state \<Rightarrow> string \<Rightarrow> bool \<Rightarrow> bool \<Rightarrow> (string \<times> json) list \<Rightarrow> string
     \<Rightarrow> (py_exn + string \<times> string option) \<times> state" where
  "store_inferred e st path write verbose payload inferred =
     (let payload' = AList.update ''project_path'' (JStr inferred) payload;
          (ok, st1) =
            (if write then
               (case dumps e (JDict payload') of
                  None \<Rightarrow> (False, st)
                | Some t \<Rightarrow> write_text e st path (t @ [CHR 0x0A]))
             else (True, st))
      in if \<not> ok then (Inr (''failed'', None), st1)
         else (Inr (''updated'', Some inferred),
               if verbose then st1\<lparr>stdout := stdout st1 @ [path_name path @ '': '' @ inferred]\<rparr>
               else st1))"

text \<open>Lines 126 to 139.\<close>

definition infer_and_store ::
  "env \<Rightarrow> state \<Rightarrow> string \<Rightarrow> bool \<Rightarrow> bool \<Rightarrow> (string \<times> json) list
     \<Rightarrow> (py_exn + string \<times> string option) \<times> state" where
  "infer_and_store e st path write verbose payload =
     (case infer_project_path e payload of
        Inl x \<Rightarrow> (Inl x, st)
      | Inr None \<Rightarrow> (Inr (''skipped'', None), st)
      | Inr (Some inferred) \<Rightarrow>
          if inferred = [] then (Inr (''skipped'', None), st)
          else store_inferred e st path write verbose payload inferred)"

text \<open>
  Lines 113 to 139: what \<open>process_file\<close> returns, or the exception that leaves it, and
  the state then.
\<close>

definition process_file ::
  "env \<Rightarrow> state \<Rightarrow> string \<Rightarrow> bool \<Rightarrow> bool \<Rightarrow> (py_exn + string \<times> string option) \<times> state" where
  "process_file e st path write verbose =
     (case read_payload e st path of
        None \<Rightarrow> (Inr (''failed'', None), st)
      | Some (JDict payload) \<Rightarrow>
          (case map_of payload ''project_path'' of
             Some (JStr existing) \<Rightarrow>
               (case is_abs_dir e existing of
                  Inl x \<Rightarrow> (Inl x, st)
                | Inr d \<Rightarrow>
                    if d then (case normalize_path e existing of
                                 Inl x \<Rightarrow> (Inl x, st)
                               | Inr n \<Rightarrow> (Inr (''skipped'', Some n), st))
                    else infer_and_store e st path write verbose payload)
           | _ \<Rightarrow> infer_and_store e st path write verbose payload)
      | Some _ \<Rightarrow> (Inr (''failed'', None), st))"

subsection \<open>Batch driver\<close>

record counters =
  scanned :: int
  updated :: int
  skipped :: int
  failed :: int

text \<open>
  Lines 161 to 169, the loop over the files. An exception that leaves \<open>process_file\<close>
  leaves the loop, after \<open>scanned\<close> was incremented for that file; the first component
  is that exception, if any.
\<close>

fun main_loop ::
  "env \<Rightarrow> bool \<Rightarrow> bool \<Rightarrow> string list \<Rightarrow> counters \<times> state \<Rightarrow> py_exn option \<times> counters \<times> state"
  where
  "main_loop e write verbose [] (c, st) = (None, c, st)"
| "main_loop e write verbose (f # fs) (c, st) =
     (let c = c\<lparr>scanned := scanned c + 1\<rparr>
      in case process_file e st f write verbose of
           (Inl x, st') \<Rightarrow> (Some x, c, st')
         | (Inr (status, _), st') \<Rightarrow>
             (let c = (if status = ''updated'' then c\<lparr>updated := updated c + 1\<rparr>
                       else if status = ''skipped'' then c\<lparr>skipped := skipped c + 1\<rparr>
                       else c\<lparr>failed := failed c + 1\<rparr>)
              in main_loop e write verbose fs (c, st')))"

text \<open>\<^verbatim>\<open>str(n)\<close> for an integer, in decimal.\<close>

function digits_of :: "nat \<Rightarrow> string" where
  "digits_of n =
     (if n < 10 then [char_of (48 + n)] else digits_of (n div 10) @ [char_of (48 + n mod 10)])"
  by pat_completeness auto
termination
  by (relation "measure id") auto

definition str_int :: "int \<Rightarrow> string" where
  "str_int i = (if i < 0 then CHR ''-'' # digits_of (nat (- i)) else digits_of (nat i))"

definition run_files :: "env \<Rightarrow> bool \<Rightarrow> bool \<Rightarrow> state \<Rightarrow> py_exn option \<times> counters \<times> state" where
  "run_files e write verbose st =
     main_loop e write verbose (sort (glob e))
       (\<lparr>scanned = 0, updated = 0, skipped = 0, failed = 0\<rparr>, st)"

text \<open>
  Lines 153 to 173: the value \<open>main\<close> returns, or the exception that leaves it (then no
  summary line is printed), and the state then.
\<close>

definition main :: "env \<Rightarrow> bool \<Rightarrow> bool \<Rightarrow> state \<Rightarrow> (py_exn + int) \<times> state" where
  "main e write verbose st =
     (case run_files e write verbose st of
        (Some x, c, st') \<Rightarrow> (Inl x, st')
      | (None, c, st') \<Rightarrow>
          (let mode = (if write then ''write'' else ''dry-run'');
               line = ''mode='' @ mode @ '' scanned='' @ str_int (scanned c)
                      @ '' updated='' @ str_int (updated c)
                      @ '' skipped='' @ str_int (skipped c)
                      @ '' failed='' @ str_int (failed c)
           in (Inr (if failed c = 0 then 0 else 1), st'\<lparr>stdout := stdout st' @ [line]\<rparr>)))"


subsection \<open>Notions used in the statements\<close>

text \<open>
  The test of lines 60 and 123: \<open>project_path\<close> is a string that passes the directory
  check (\<open>Inl\<close>: the check raises).
\<close>

definition has_valid_project_path :: "env \<Rightarrow> (string \<times> json) list \<Rightarrow> py_exn + bool" where
  "has_valid_project_path e payload =
     (case map_of payload ''project_path'' of
        Some (JStr existing) \<Rightarrow> is_abs_dir e existing
      | _ \<Rightarrow> Inr False)"

text \<open>
  The loop of lines 161 to 169 once more, recording for each file the status that
  \<open>process_file\<close> returned to it; a file at which an exception leaves the loop gets no
  entry, nor do the files behind it.
\<close>

fun main_log :: "env \<Rightarrow> bool \<Rightarrow> bool \<Rightarrow> string list \<Rightarrow> state \<Rightarrow> (string \<times> string) list" where
  "main_log e write verbose [] st = []"
| "main_log e write verbose (f # fs) st =
     (case process_file e st f write verbose of
        (Inl x, st') \<Rightarrow> []
      | (Inr (status, _), st') \<Rightarrow> (f, status) # main_log e write verbose fs st')"

definition run_log :: "env \<Rightarrow> bool \<Rightarrow> bool \<Rightarrow> state \<Rightarrow> (string \<times> string) list" where
  "run_log e write verbose st = main_log e write verbose (sort (glob e)) st"

text \<open>
  The cause of \<open>failed\<close> as the specification words it for a dry run: the content of
  the file fails to parse or does not decode to a record-shaped value.
\<close>

definition spec_unparsed_content :: "env \<Rightarrow> state \<Rightarrow> string \<Rightarrow> bool" where
  "spec_unparsed_content e st f =
     (case disk st f of
        None \<Rightarrow> False
      | Some text \<Rightarrow> (case loads e text of Some (JDict payload) \<Rightarrow> False | _ \<Rightarrow> True))"

text \<open>
  Rule 2 of the candidate extractor as the specification words it: at every occurrence
  of the marker, the text behind it up to the next line break, trimmed, is a candidate
  if it is not empty and begins with a slash.
\<close>

fun spec_marker_candidates :: "string \<Rightarrow> string \<Rightarrow> string list" where
  "spec_marker_candidates marker [] = []"
| "spec_marker_candidates marker (c # cs) =
     (if prefix marker (c # cs)
      then (let t = strip (takeWhile (\<lambda>x. \<not> is_linebreak x) (drop (length marker) (c # cs)))
            in if t \<noteq> [] \<and> startswith t ''/'' then [t] else [])
      else [])
     @ spec_marker_candidates marker cs"

subsection \<open>A small environment for concrete runs\<close>

text \<open>
  One record with a title that is a path, the record after the backfill, and a record
  whose \<open>project_path\<close> names the home of a user. The texts \<open>T0\<close>, \<open>T1\<close> and \<open>T2\<close>
  stand for their serialisations: \<open>demo_loads\<close> and \<open>demo_dumps\<close> are a codec for
  just these records.
\<close>

definition demo_payload :: "(string \<times> json) list" where
  "demo_payload = [(''title'', JStr ''/p'')]"

definition demo_payload' :: "(string \<times> json) list" where
  "demo_payload' = [(''title'', JStr ''/p''), (''project_path'', JStr ''/p'')]"

definition demo_home_payload :: "(string \<times> json) list" where
  "demo_home_payload = [(''project_path'', JStr ''~nouser/x'')]"

definition demo_loads :: "string \<Rightarrow> json option" where
  "demo_loads s =
     (if s = ''T0'' then Some (JDict demo_payload)
      else if s = ''T1'' @ [CHR 0x0A] then Some (JDict demo_payload')
      else if s = ''T2'' then Some (JDict demo_home_payload)
      else None)"

definition demo_dumps :: "json \<Rightarrow> string option" where
  "demo_dumps j = (if j = JDict demo_payload' then Some ''T1'' else None)"

text \<open>
  A POSIX-like environment in which no user is known: a path that begins with a tilde
  makes \<open>expanduser\<close> raise, any other path is its own expansion; absolute means a
  leading slash, the directories are those of \<open>dirs\<close>, every path is its own canonical
  form, and every write ends as \<open>wo\<close> says.
\<close>

definition demo_env :: "string list \<Rightarrow> write_outcome \<Rightarrow> env" where
  "demo_env dirs wo =
     \<lparr> expanduser = (\<lambda>s. if startswith s ''~'' then Inl RuntimeError else Inr s),
       is_absolute = (\<lambda>p. startswith p ''/''),
       is_dir = (\<lambda>p. Inr (p \<in> set dirs)),
       resolve = (\<lambda>p. p),
       loads = demo_loads,
       dumps = demo_dumps,
       write_outcome_of = (\<lambda>p t. wo),
       glob = [''context-a.json''] \<rparr>"

definition demo_state :: state where
  "demo_state = \<lparr> disk = [''context-a.json'' \<mapsto> ''T0''], stdout = [] \<rparr>"

text \<open>The state once the record has been backfilled.\<close>

definition demo_state' :: state where
  "demo_state' = \<lparr> disk = [''context-a.json'' \<mapsto> ''T1'' @ [CHR 0x0A]], stdout = [] \<rparr>"


text \<open>The state where the listed file cannot be read.\<close>

definition demo_unreadable_state :: state where
  "demo_unreadable_state = \<lparr> disk = Map.empty, stdout = [] \<rparr>"


subsection \<open>Assumptions on the libraries and the file system\<close>

text \<open>
  \<^verbatim>\<open>json.loads\<close> reads back what \<^verbatim>\<open>json.dumps\<close> produced, with the newline the
  script appends.
\<close>

definition codec_roundtrip :: "env \<Rightarrow> bool" where
  "codec_roundtrip e \<longleftrightarrow> (\<forall>j t. dumps e j = Some t \<longrightarrow> loads e (t @ [CHR 0x0A]) = Some j)"

text \<open>
  A text cut short by a failed write does not decode, or decodes like the whole text
  (only the final newline was lost).
\<close>

definition torn_text_unparsed :: "env \<Rightarrow> bool" where
  "torn_text_unparsed e \<longleftrightarrow>
     (\<forall>p t n. write_outcome_of e p t = WriteFailed n \<longrightarrow>
        loads e (take n t) = None \<or> loads e (take n t) = loads e t)"

text \<open>The canonical form of an existing absolute directory is one as well.\<close>

definition resolve_keeps_dirs :: "env \<Rightarrow> bool" where
  "resolve_keeps_dirs e \<longleftrightarrow>
     (\<forall>s n. is_abs_dir e s = Inr True \<and> normalize_path e s = Inr n \<longrightarrow> is_abs_dir e n = Inr True)"

section \<open>Properties\<close>


subsection \<open>The primitives on examples\<close>

text \<open>
  Values that Python gives for the same arguments; the last ranking shows that entries
  of equal score keep their order.
\<close>

lemma splitlines_example:
  "splitlines (''a'' @ [CHR 0x0D, CHR 0x0A] @ ''b'' @ [CHR 0x0A, CHR 0x0A]) = [''a'', ''b'', [] ]"
  by (simp add: splitlines_def is_linebreak_def)

lemma extract_absolute_paths_example:
  "extract_absolute_paths ''see /a/b.c, (/x/y) //net/z and / alone <a href=/q>''
     = [''/a/b.c'', ''/x/y'', ''/q'']"
  by code_simp

lemma find_str_example: "find_str ''abcabc'' ''bc'' = Some 1 \<and> find_str ''abc'' ''x'' = None"
  by code_simp

lemma stable_ranking_example:
  "sort_key (\<lambda>x. - fst x) [(20::int, ''/a''), (30, ''/b''), (30, ''/c''), (20, ''/d'')]
     = [(30, ''/b''), (30, ''/c''), (20, ''/a''), (20, ''/d'')]"
  by code_simp

lemma str_int_example: "str_int 1203 = ''1203'' \<and> str_int 0 = ''0''"
  by code_simp

subsection \<open>Strings\<close>

lemma contains_sublist: "contains s sub \<longleftrightarrow> sublist sub s"
  by (induction s) (auto simp: sublist_Cons_right)

lemma find_str_None: "\<not> sublist sub s \<Longrightarrow> find_str s sub = None"
  by (induction s) (auto simp: sublist_Cons_right)

lemma prefix_append_butlast:
  assumes "m \<noteq> []" "prefix m (pre @ m @ post)" "pre \<noteq> []"
  shows "prefix m (pre @ butlast m)"
proof -
  have len: "length m \<le> length (pre @ butlast m)" using assms by (cases pre) auto
  have "take (length m) (pre @ m @ post) = m" using assms(2) by (metis append_eq_conv_conj prefix_def)
  moreover have "take (length m) (pre @ m @ post) = take (length m) (pre @ butlast m)"
    using len assms(1) by (cases m rule: rev_cases) auto
  ultimately have "take (length m) (pre @ butlast m) = m" by simp
  then show ?thesis by (metis take_is_prefix)
qed

lemma find_str_first:
  "\<not> sublist m (pre @ butlast m) \<Longrightarrow> find_str (pre @ m @ post) m = Some (length pre)"
proof (induction pre)
  case Nil
  then have "m \<noteq> []" by auto
  then obtain a list where al: "m @ post = a # list" by (cases m) auto
  then have "prefix m (a # list)" by (metis prefixI)
  with al show ?case by simp
next
  case (Cons a pre)
  have mne: "m \<noteq> []" using Cons.prems by auto
  have "\<not> prefix m ((a # pre) @ butlast m)"
    using Cons.prems by (meson sublist_altdef' suffix_order.refl)
  then have np: "\<not> prefix m ((a # pre) @ m @ post)"
    using prefix_append_butlast [OF mne, of "a # pre" post] by blast
  have "\<not> sublist m (pre @ butlast m)" using Cons.prems by (auto simp: sublist_Cons_right)
  with Cons.IH np show ?case by simp
qed

lemma splitlines_acc_first:
  "acc \<noteq> [] \<or> s \<noteq> [] \<Longrightarrow>
     \<exists>rest. splitlines_acc acc s = (rev acc @ takeWhile (\<lambda>c. \<not> is_linebreak c) s) # rest"
proof (induction s arbitrary: acc)
  case Nil
  then show ?case by simp
next
  case (Cons c cs)
  have cr: "is_linebreak (CHR 0x0D)" by (simp add: is_linebreak_def)
  show ?case
  proof (cases "is_linebreak c")
    case True
    then show ?thesis by (auto split: list.splits)
  next
    case False
    then have "c \<noteq> CHR 0x0D" using cr by auto
    with False Cons.IH [of "c # acc"] show ?thesis by auto
  qed
qed

lemma splitlines_nonempty:
  "s \<noteq> [] \<Longrightarrow> \<exists>rest. splitlines s = takeWhile (\<lambda>c. \<not> is_linebreak c) s # rest"
  using splitlines_acc_first [of "[]" s] by (simp add: splitlines_def)

lemma rstrip_Cons: "\<not> is_space c \<Longrightarrow> rstrip (c # cs) = c # rstrip cs"
  by (simp add: rstrip_def dropWhile_append)

lemma strip_Cons: "\<not> is_space c \<Longrightarrow> strip (c # cs) = c # rstrip cs"
  by (simp add: strip_def lstrip_def rstrip_Cons)

lemma slash_not_space: "\<not> is_space CHR ''/''" "\<not> is_linebreak CHR ''/''"
  by (simp_all add: is_space_def is_linebreak_def)

lemma startswith_slash: "startswith s ''/'' \<longleftrightarrow> (\<exists>cs. s = CHR ''/'' # cs)"
  by (cases s) (auto simp: startswith_def)

lemma set_rstrip: "set (rstrip s) \<subseteq> set s"
  by (metis rstrip_def set_dropWhileD set_rev subsetI)

lemma set_strip: "set (strip s) \<subseteq> set s"
  unfolding strip_def lstrip_def using set_rstrip set_dropWhileD by fast

lemma marker_candidate_rest:
  assumes "find_str content marker = Some idx"
  shows "marker_candidate marker content =
     (let rest = strip (drop (idx + length marker) content)
      in if startswith rest ''/'' then [strip (takeWhile (\<lambda>c. \<not> is_linebreak c) rest)] else [])"
proof (cases "startswith (strip (drop (idx + length marker) content)) ''/''")
  case False
  with assms show ?thesis by (simp add: marker_candidate_def)
next
  case True
  then obtain cs where cs: "strip (drop (idx + length marker) content) = CHR ''/'' # cs"
    by (auto simp: startswith_slash)
  then obtain rest where
    sl: "splitlines (CHR ''/'' # cs) = takeWhile (\<lambda>c. \<not> is_linebreak c) (CHR ''/'' # cs) # rest"
    using splitlines_nonempty [of "CHR ''/'' # cs"] by auto
  have "strip (takeWhile (\<lambda>c. \<not> is_linebreak c) (CHR ''/'' # cs)) \<noteq> []"
    by (simp add: slash_not_space strip_Cons)
  with assms True cs sl show ?thesis by (simp add: marker_candidate_def)
qed

lemma marker_candidate_slash:
  assumes "c \<in> set (marker_candidate marker content)"
  shows "startswith c ''/'' \<and> \<not> (\<exists>x \<in> set c. is_linebreak x)"
proof -
  from assms obtain idx where f: "find_str content marker = Some idx"
    by (cases "find_str content marker") (auto simp: marker_candidate_def)
  let ?rest = "strip (drop (idx + length marker) content)"
  from assms marker_candidate_rest [OF f]
  have sw: "startswith ?rest ''/''" and c: "c = strip (takeWhile (\<lambda>c. \<not> is_linebreak c) ?rest)"
    by (auto simp: Let_def split: if_splits)
  from sw obtain cs where cs: "?rest = CHR ''/'' # cs" by (auto simp: startswith_slash)
  have "startswith c ''/''" unfolding c cs by (simp add: slash_not_space strip_Cons startswith_slash)
  moreover have "\<forall>x \<in> set c. \<not> is_linebreak x"
    using set_strip [of "takeWhile (\<lambda>c. \<not> is_linebreak c) ?rest"] unfolding c
    by (auto dest: set_takeWhileD)
  ultimately show ?thesis by blast
qed

text \<open>
  Claim C1, as the code has it. For one marker and one content, only the first
  occurrence of the marker is looked at. Without an occurrence nothing is added. With
  one, the text behind the first occurrence is stripped of surrounding whitespace, line
  breaks included; if the stripped text begins with a slash, its first line, trimmed, is
  the marker's single candidate, and otherwise nothing is added. Every candidate of this
  rule begins with a slash and holds no line break, and the loop adds the candidates of
  the two markers in their order.
\<close>

theorem marker_candidate_first_occurrence:
  "(\<not> sublist marker content \<longrightarrow> marker_candidate marker content = []) \<and>
   (\<forall>pre post. content = pre @ marker @ post \<and> \<not> sublist marker (pre @ butlast marker) \<longrightarrow>
      marker_candidate marker content =
        (let rest = strip post
         in if startswith rest ''/'' then [strip (takeWhile (\<lambda>c. \<not> is_linebreak c) rest)]
            else [])) \<and>
   (\<forall>c \<in> set (marker_candidate marker content).
      startswith c ''/'' \<and> \<not> (\<exists>x \<in> set c. is_linebreak x)) \<and>
   marker_loop PROJECT_ROOT_MARKERS content =
     marker_candidate ''Active project root:'' content @ marker_candidate ''Project set to'' content"
proof -
  have p1: "\<not> sublist marker content \<longrightarrow> marker_candidate marker content = []"
    by (simp add: marker_candidate_def find_str_None)
  have p2: "marker_candidate marker content =
        (let rest = strip post
         in if startswith rest ''/'' then [strip (takeWhile (\<lambda>c. \<not> is_linebreak c) rest)]
            else [])"
    if a: "content = pre @ marker @ post \<and> \<not> sublist marker (pre @ butlast marker)"
    for pre post
  proof -
    from a have "find_str content marker = Some (length pre)" using find_str_first by blast
    from marker_candidate_rest [OF this] a show ?thesis by simp
  qed
  have p3: "\<forall>c \<in> set (marker_candidate marker content).
      startswith c ''/'' \<and> \<not> (\<exists>x \<in> set c. is_linebreak x)"
    using marker_candidate_slash by blast
  have p4: "marker_loop PROJECT_ROOT_MARKERS content =
     marker_candidate ''Active project root:'' content @ marker_candidate ''Project set to'' content"
    by (simp add: PROJECT_ROOT_MARKERS_def)
  from p1 p2 p3 p4 show ?thesis by blast
qed

theorem marker_candidate_first_occurrence_witness:
  "marker_candidate ''Project set to''
     (''x Project set to'' @ [CHR 0x0A] @ '' /a b '' @ [CHR 0x0A] @ ''Project set to /c'')
   = [''/a b'']"
proof -
  let ?m = "''Project set to''"
  let ?pre = "''x ''"
  let ?post = "[CHR 0x0A] @ '' /a b '' @ [CHR 0x0A] @ ''Project set to /c''"
  have h: "''x Project set to'' @ [CHR 0x0A] @ '' /a b '' @ [CHR 0x0A] @ ''Project set to /c''
             = ?pre @ ?m @ ?post \<and> \<not> sublist ?m (?pre @ butlast ?m)"
    by (simp add: sublist_code)
  have r: "(let rest = strip ?post
         in if startswith rest ''/'' then [strip (takeWhile (\<lambda>c. \<not> is_linebreak c) rest)]
            else []) = [''/a b'']"
    by (simp add: strip_def lstrip_def rstrip_def is_space_def is_linebreak_def startswith_def)
  from marker_candidate_first_occurrence
    [of ?m "''x Project set to'' @ [CHR 0x0A] @ '' /a b '' @ [CHR 0x0A] @ ''Project set to /c''"]
  have "\<forall>pre post. ''x Project set to'' @ [CHR 0x0A] @ '' /a b '' @ [CHR 0x0A] @ ''Project set to /c'' = pre @ ?m @ post \<and> \<not> sublist ?m (pre @ butlast ?m) \<longrightarrow>
      marker_candidate ?m (''x Project set to'' @ [CHR 0x0A] @ '' /a b '' @ [CHR 0x0A] @ ''Project set to /c'') =
        (let rest = strip post
         in if startswith rest ''/'' then [strip (takeWhile (\<lambda>c. \<not> is_linebreak c) rest)]
            else [])" by blast
  from this [rule_format, of ?pre ?post, OF h] r show ?thesis by simp
qed

text \<open>
  Against C1 as it is worded: a second occurrence of the marker adds nothing, and a path
  on the line after the marker is taken.
\<close>

theorem marker_every_occurrence_counterexample:
  "marker_candidate ''Project set to''
      (''Project set to /a'' @ [CHR 0x0A] @ ''Project set to /b'') = [''/a'']
   \<and> spec_marker_candidates ''Project set to''
      (''Project set to /a'' @ [CHR 0x0A] @ ''Project set to /b'') = [''/a'', ''/b'']
   \<and> marker_candidate ''Project set to'' (''Project set to'' @ [CHR 0x0A] @ ''/x'') = [''/x'']
   \<and> spec_marker_candidates ''Project set to'' (''Project set to'' @ [CHR 0x0A] @ ''/x'') = []"
  by (simp add: marker_candidate_def splitlines_def strip_def lstrip_def rstrip_def
      is_space_def is_linebreak_def startswith_def)

subsection \<open>Scoring\<close>

lemma marker_bonus_count:
  "marker_bonus ms path t score =
     score + 50 * int (length (filter (\<lambda>m. sublist (m @ '' '' @ path) t) ms))"
  by (induction ms arbitrary: score) (auto simp: contains_sublist)

lemma markers_distinct: "distinct PROJECT_ROOT_MARKERS"
  by (simp add: PROJECT_ROOT_MARKERS_def)

lemma score_candidate_sum:
  "score_candidate e c t =
     (case is_abs_dir e c of
        Inl x \<Rightarrow> Inl x
      | Inr d \<Rightarrow>
          Inr ((if d then 10 else 0)
               + 50 * int (length (filter (\<lambda>m. sublist (m @ '' '' @ c) t) PROJECT_ROOT_MARKERS))
               + (if sublist ''/home/'' c then 2 else 0)
               + max 0 (20 - int (length c) div 8)))"
  by (simp add: score_candidate_def Let_def marker_bonus_count contains_sublist split: sum.splits)

lemma score_candidate_Inr:
  "score_candidate e c t = Inr s \<Longrightarrow> \<exists>d. is_abs_dir e c = Inr d \<and> (d \<longrightarrow> 10 \<le> s)"
  by (auto simp: score_candidate_sum split: sum.splits)

text \<open>
  Claim C2, as the code has it. The score depends on the file system through the
  directory check of the candidate, and on nothing else outside the candidate and the
  context blob: two environments that answer the directory check of the candidate alike
  give the same score (or let the same exception through).
\<close>

theorem score_candidate_depends_on_dir_check:
  "is_abs_dir e1 c = is_abs_dir e2 c \<Longrightarrow> score_candidate e1 c t = score_candidate e2 c t"
  by (simp add: score_candidate_sum)

theorem score_candidate_depends_on_dir_check_witness:
  "is_abs_dir (demo_env [''/p''] Written) ''/p'' = is_abs_dir (demo_env [''/p'', ''/q''] Written) ''/p''
   \<and> score_candidate (demo_env [''/p''] Written) ''/p'' ''see /p''
       = score_candidate (demo_env [''/p'', ''/q''] Written) ''/p'' ''see /p''"
proof -
  have h: "is_abs_dir (demo_env [''/p''] Written) ''/p'' = is_abs_dir (demo_env [''/p'', ''/q''] Written) ''/p''"
    by (simp add: is_abs_dir_def demo_env_def startswith_def)
  from h score_candidate_depends_on_dir_check [OF h, of "''see /p''"] show ?thesis by simp
qed

text \<open>
  Against C2 as it is worded: the same candidate and the same blob score 30 where the
  candidate is a directory and 20 where it is not.
\<close>

theorem score_candidate_file_system_counterexample:
  "score_candidate (demo_env [''/p''] Written) ''/p'' ''see /p'' = Inr 30
   \<and> score_candidate (demo_env [] Written) ''/p'' ''see /p'' = Inr 20"
  by (simp add: score_candidate_sum is_abs_dir_def demo_env_def startswith_def
      PROJECT_ROOT_MARKERS_def sublist_code)

text \<open>
  Claim C3. Whenever the directory check of a candidate \<open>c\<close> answers, the score of \<open>c\<close>
  against a blob \<open>t\<close> is the sum of: 10 if \<open>c\<close> passes the check; 50 for each marker
  \<open>m\<close> such that \<open>m\<close>, one blank and \<open>c\<close> occur in \<open>t\<close> as one substring; 2 if
  \<open>/home/\<close> occurs in \<open>c\<close>; and the larger of 0 and 20 minus the floor of the length
  of \<open>c\<close> divided by 8. Where the check raises, no score is computed.
\<close>

theorem score_candidate_components:
  "score_candidate e c t =
     (case is_abs_dir e c of
        Inl x \<Rightarrow> Inl x
      | Inr passes \<Rightarrow>
          Inr ((if passes then 10 else 0)
               + 50 * int (card {m \<in> set PROJECT_ROOT_MARKERS. sublist (m @ '' '' @ c) t})
               + (if sublist ''/home/'' c then 2 else 0)
               + max 0 (20 - \<lfloor>real (length c) / 8\<rfloor>)))"
proof -
  have fl: "\<lfloor>real (length c) / 8\<rfloor> = int (length c) div 8"
    using floor_divide_of_nat_eq [where ?'a = real, of "length c" 8] by simp
  have "card (set (filter (\<lambda>m. sublist (m @ '' '' @ c) t) PROJECT_ROOT_MARKERS))
      = length (filter (\<lambda>m. sublist (m @ '' '' @ c) t) PROJECT_ROOT_MARKERS)"
    by (rule distinct_card) (simp add: markers_distinct)
  then have cnt: "card {m \<in> set PROJECT_ROOT_MARKERS. sublist (m @ '' '' @ c) t}
      = length (filter (\<lambda>m. sublist (m @ '' '' @ c) t) PROJECT_ROOT_MARKERS)"
    by simp
  show ?thesis unfolding fl cnt by (rule score_candidate_sum)
qed

subsection \<open>Record processor\<close>

lemma normalize_after_check:
  "is_abs_dir e x = Inr d \<Longrightarrow> \<exists>p. expanduser e x = Inr p \<and> normalize_path e x = Inr (resolve e p)"
  by (auto simp: is_abs_dir_def normalize_path_def split: sum.splits)

lemma infer_project_path_invalid:
  "has_valid_project_path e payload = Inr False \<Longrightarrow>
     infer_project_path e payload = infer_from_text e payload"
  by (auto simp: has_valid_project_path_def infer_project_path_def
      split: option.splits json.splits sum.splits)

lemma has_valid_project_path_cases [case_names check_raises valid invalid]:
  obtains
    (check_raises) x ex where "map_of payload ''project_path'' = Some (JStr x)" "is_abs_dir e x = Inl ex"
      "has_valid_project_path e payload = Inl ex"
  | (valid) x where "map_of payload ''project_path'' = Some (JStr x)" "is_abs_dir e x = Inr True"
      "has_valid_project_path e payload = Inr True"
  | (invalid) "has_valid_project_path e payload = Inr False"
proof (cases "has_valid_project_path e payload")
  case (Inl ex)
  then obtain x where "map_of payload ''project_path'' = Some (JStr x)" "is_abs_dir e x = Inl ex"
    by (auto simp: has_valid_project_path_def split: option.splits json.splits)
  then show ?thesis using Inl by (rule check_raises)
next
  case (Inr d)
  show ?thesis
  proof (cases d)
    case True
    with Inr obtain x where "map_of payload ''project_path'' = Some (JStr x)"
        "is_abs_dir e x = Inr True"
      by (auto simp: has_valid_project_path_def split: option.splits json.splits)
    then show ?thesis using Inr True by (intro valid) auto
  next
    case False
    with Inr show ?thesis by (intro invalid) simp
  qed
qed

lemma process_file_unreadable:
  "\<not> (\<exists>payload. read_payload e st f = Some (JDict payload)) \<Longrightarrow>
     process_file e st f w v = (Inr (''failed'', None), st)"
  by (auto simp: process_file_def split: option.splits json.splits)

lemma process_file_raises:
  "read_payload e st f = Some (JDict payload) \<Longrightarrow>
   map_of payload ''project_path'' = Some (JStr x) \<Longrightarrow> is_abs_dir e x = Inl ex \<Longrightarrow>
     process_file e st f w v = (Inl ex, st)"
  by (simp add: process_file_def)

lemma process_file_existing:
  "read_payload e st f = Some (JDict payload) \<Longrightarrow>
   map_of payload ''project_path'' = Some (JStr x) \<Longrightarrow> is_abs_dir e x = Inr True \<Longrightarrow>
   normalize_path e x = Inr n \<Longrightarrow>
     process_file e st f w v = (Inr (''skipped'', Some n), st)"
  by (simp add: process_file_def)

lemma process_file_infer:
  "read_payload e st f = Some (JDict payload) \<Longrightarrow>
   has_valid_project_path e payload = Inr False \<Longrightarrow>
     process_file e st f w v =
       (case infer_from_text e payload of
          Inl ex \<Rightarrow> (Inl ex, st)
        | Inr None \<Rightarrow> (Inr (''skipped'', None), st)
        | Inr (Some r) \<Rightarrow> if r = [] then (Inr (''skipped'', None), st)
                          else store_inferred e st f w v payload r)"
  by (auto simp: process_file_def has_valid_project_path_def infer_and_store_def
      infer_project_path_def split: option.splits json.splits sum.splits)

lemma read_payload_cong: "disk s f = disk st f \<Longrightarrow> read_payload e s f = read_payload e st f"
  by (simp add: read_payload_def)

text \<open>
  The five ways through \<open>process_file\<close>. Each is taken by every state that holds the
  same text for the file.
\<close>

lemma process_file_cases [case_names unreadable raises existing none store]:
  obtains
    (unreadable) "\<not> (\<exists>payload. read_payload e st f = Some (JDict payload))"
      "\<And>s w v. disk s f = disk st f \<Longrightarrow> process_file e s f w v = (Inr (''failed'', None), s)"
  | (raises) payload ex where "read_payload e st f = Some (JDict payload)"
      "\<And>s w v. disk s f = disk st f \<Longrightarrow> process_file e s f w v = (Inl ex, s)"
  | (existing) payload x n where "read_payload e st f = Some (JDict payload)"
      "map_of payload ''project_path'' = Some (JStr x)" "is_abs_dir e x = Inr True"
      "normalize_path e x = Inr n"
      "\<And>s w v. disk s f = disk st f \<Longrightarrow>
         process_file e s f w v = (Inr (''skipped'', Some n), s)"
  | (none) payload where "read_payload e st f = Some (JDict payload)"
      "has_valid_project_path e payload = Inr False"
      "\<And>s w v. disk s f = disk st f \<Longrightarrow> process_file e s f w v = (Inr (''skipped'', None), s)"
  | (store) payload r where "read_payload e st f = Some (JDict payload)"
      "has_valid_project_path e payload = Inr False" "infer_from_text e payload = Inr (Some r)"
      "r \<noteq> []"
      "\<And>s w v. disk s f = disk st f \<Longrightarrow>
         process_file e s f w v = store_inferred e s f w v payload r"
proof (cases "\<exists>payload. read_payload e st f = Some (JDict payload)")
  case False
  then have "process_file e s f w v = (Inr (''failed'', None), s)" if "disk s f = disk st f" for s w v
    using read_payload_cong [OF that, of e] by (simp add: process_file_unreadable)
  with False show ?thesis by (rule unreadable)
next
  case True
  then obtain payload where rd: "read_payload e st f = Some (JDict payload)" by blast
  have rd': "read_payload e s f = Some (JDict payload)" if "disk s f = disk st f" for s
    using read_payload_cong [OF that, of e] rd by simp
  show ?thesis
  proof (cases rule: has_valid_project_path_cases [of payload e])
    case (check_raises x ex)
    show ?thesis
      by (rule raises [OF rd, of ex])
        (simp add: process_file_raises [OF rd' check_raises(1,2)])
  next
    case (valid x)
    from normalize_after_check [OF valid(2)] obtain n where n: "normalize_path e x = Inr n"
      by blast
    show ?thesis
      by (rule existing [OF rd valid(1,2) n])
        (simp add: process_file_existing [OF rd' valid(1,2) n])
  next
    case invalid
    show ?thesis
    proof (cases "infer_from_text e payload")
      case (Inl ex)
      show ?thesis
        by (rule raises [OF rd, of ex])
          (simp add: process_file_infer [OF rd' invalid] Inl)
    next
      case (Inr res)
      show ?thesis
      proof (cases "\<exists>r. res = Some r \<and> r \<noteq> []")
        case True
        then obtain r where r: "infer_from_text e payload = Inr (Some r)" "r \<noteq> []"
          using Inr by blast
        show ?thesis
          by (rule store [OF rd invalid r]) (simp add: process_file_infer [OF rd' invalid] r)
      next
        case False
        then have "process_file e s f w v = (Inr (''skipped'', None), s)"
          if "disk s f = disk st f" for s w v
          using that Inr by (auto simp: process_file_infer [OF rd' invalid] split: option.splits)
        then show ?thesis by (rule none [OF rd invalid])
      qed
    qed
  qed
qed

lemma store_inferred_dry:
  "store_inferred e st f False v payload r =
     (Inr (''updated'', Some r),
      if v then st\<lparr>stdout := stdout st @ [path_name f @ '': '' @ r]\<rparr> else st)"
  by (simp add: store_inferred_def)

lemma store_inferred_status:
  "fst (store_inferred e st f w v payload r) = Inr (''updated'', Some r)
   \<or> fst (store_inferred e st f w v payload r) = Inr (''failed'', None)"
  by (auto simp: store_inferred_def write_text_def Let_def split: option.splits write_outcome.splits)


lemma process_file_dry_disk: "disk (snd (process_file e st f False v)) = disk st"
  by (cases rule: process_file_cases [of e st f]) (simp_all add: store_inferred_dry)

lemma process_file_dry_failed:
  "(\<exists>r. fst (process_file e st f False v) = Inr (''failed'', r))
     \<longleftrightarrow> \<not> (\<exists>payload. read_payload e st f = Some (JDict payload))"
  by (cases rule: process_file_cases [of e st f]) (simp_all add: store_inferred_dry)

subsection \<open>Batch driver\<close>

lemma main_loop_dry_disk: "disk (snd (snd (main_loop e False v fs (c, st)))) = disk st"
proof (induction fs arbitrary: c st)
  case Nil
  then show ?case by simp
next
  case (Cons f fs)
  obtain res st' where p: "process_file e st f False v = (res, st')" by (metis prod.exhaust)
  then have "disk st' = disk st" using process_file_dry_disk [of e st f v] by simp
  with p Cons.IH show ?case by (auto simp: Let_def split: sum.splits prod.splits)
qed





subsection \<open>The small environment\<close>

lemma demo_env_simps:
  "expanduser (demo_env dirs wo) = (\<lambda>s. if startswith s ''~'' then Inl RuntimeError else Inr s)"
  "is_absolute (demo_env dirs wo) = (\<lambda>p. startswith p ''/'')"
  "is_dir (demo_env dirs wo) = (\<lambda>p. Inr (p \<in> set dirs))"
  "resolve (demo_env dirs wo) = (\<lambda>p. p)"
  "loads (demo_env dirs wo) = demo_loads"
  "dumps (demo_env dirs wo) = demo_dumps"
  "write_outcome_of (demo_env dirs wo) = (\<lambda>p t. wo)"
  "glob (demo_env dirs wo) = [''context-a.json'']"
  by (simp_all add: demo_env_def)

lemma demo_read:
  "read_payload (demo_env dirs wo) demo_state ''context-a.json'' = Some (JDict demo_payload)"
  by (simp add: read_payload_def demo_env_simps demo_state_def demo_loads_def)

lemma demo_read':
  "read_payload (demo_env dirs wo) demo_state' ''context-a.json'' = Some (JDict demo_payload')"
  by (simp add: read_payload_def demo_env_simps demo_state'_def demo_loads_def)


lemma demo_is_abs_dir: "is_abs_dir (demo_env dirs wo) ''/p'' = Inr (''/p'' \<in> set dirs)"
  by (simp add: is_abs_dir_def demo_env_simps startswith_def)


lemma demo_normalize: "normalize_path (demo_env dirs wo) ''/p'' = Inr ''/p''"
  by (simp add: normalize_path_def demo_env_simps startswith_def)

lemma demo_invalid: "has_valid_project_path e demo_payload = Inr False"
  by (simp add: has_valid_project_path_def demo_payload_def)

lemma demo_collect: "collect_evidence demo_payload = ([''/p''], [''/p''])"
  by (simp add: collect_evidence_def demo_payload_def startswith_def strip_def lstrip_def
      rstrip_def is_space_def)

lemma demo_score:
  "score_candidate (demo_env dirs wo) ''/p'' ''/p'' = Inr (if ''/p'' \<in> set dirs then 30 else 20)"
  by (simp add: score_candidate_sum demo_is_abs_dir PROJECT_ROOT_MARKERS_def sublist_code)

lemma demo_ranked:
  "ranked (demo_env dirs wo) demo_payload = Inr [(if ''/p'' \<in> set dirs then 30 else 20, ''/p'')]"
  by (simp add: ranked_def demo_collect demo_score)

lemma demo_infer:
  "infer_from_text (demo_env dirs wo) demo_payload
     = Inr (if ''/p'' \<in> set dirs then Some ''/p'' else None)"
  by (simp add: infer_from_text_def demo_collect demo_ranked demo_is_abs_dir demo_normalize)

lemma demo_update: "AList.update ''project_path'' (JStr ''/p'') demo_payload = demo_payload'"
  by (simp add: demo_payload_def demo_payload'_def)

lemma demo_store:
  "store_inferred (demo_env dirs wo) demo_state ''context-a.json'' True False demo_payload ''/p''
     = (case wo of
          Written \<Rightarrow> (Inr (''updated'', Some ''/p''), demo_state')
        | OpenFailed \<Rightarrow> (Inr (''failed'', None), demo_state)
        | WriteFailed n \<Rightarrow>
            (Inr (''failed'', None),
             demo_state\<lparr>disk := (disk demo_state)(''context-a.json'' \<mapsto> take n (''T1'' @ [CHR 0x0A]))\<rparr>))"
  by (simp add: store_inferred_def demo_update write_text_def demo_env_simps demo_dumps_def
      demo_state_def demo_state'_def split: write_outcome.splits)

lemma demo_process:
  "process_file (demo_env [''/p''] wo) demo_state ''context-a.json'' True False
     = store_inferred (demo_env [''/p''] wo) demo_state ''context-a.json'' True False
         demo_payload ''/p''"
  by (simp add: process_file_infer [OF demo_read demo_invalid] demo_infer)


subsection \<open>Ranking\<close>

lemma set_rank_loop_subset:
  "rank_loop e blob seen cs = Inr rs \<Longrightarrow>
     set rs \<subseteq> {(s, c). c \<in> set cs \<and> score_candidate e c blob = Inr s}"
proof (induction cs arbitrary: seen rs)
  case Nil
  then show ?case by simp
next
  case (Cons a cs)
  show ?case
  proof (cases "a \<in> set seen")
    case True
    with Cons.prems have "rank_loop e blob seen cs = Inr rs" by simp
    from Cons.IH [OF this] show ?thesis by auto
  next
    case False
    with Cons.prems obtain sa rs' where sa: "score_candidate e a blob = Inr sa"
      and rs': "rank_loop e blob (a # seen) cs = Inr rs'" and rs: "rs = (sa, a) # rs'"
      by (auto split: sum.splits)
    from Cons.IH [OF rs'] sa show ?thesis unfolding rs by auto
  qed
qed

lemma set_rank_loop:
  "rank_loop e blob seen cs = Inr rs \<Longrightarrow> (s, c) \<in> set rs \<Longrightarrow>
     c \<in> set cs \<and> score_candidate e c blob = Inr s"
  using set_rank_loop_subset by fastforce

lemma ranked_alt:
  "ranked e payload =
     (case rank_loop e (join [CHR 0x0A] (snd (collect_evidence payload))) []
             (fst (collect_evidence payload)) of
        Inl x \<Rightarrow> Inl x
      | Inr rs \<Rightarrow> Inr (sort_key (\<lambda>x. - fst x) rs))"
  by (simp add: ranked_def case_prod_beta)

lemma ranked_member:
  "ranked e payload = Inr rk \<Longrightarrow> (s, c) \<in> set rk \<Longrightarrow>
     c \<in> set (fst (collect_evidence payload))
     \<and> score_candidate e c (join [CHR 0x0A] (snd (collect_evidence payload))) = Inr s"
  by (auto simp: ranked_alt split: sum.splits dest: set_rank_loop)

lemma ranked_top:
  assumes "ranked e payload = Inr ((s, c) # rest)" "x \<in> set rest"
  shows "fst x \<le> s"
proof -
  from assms(1) obtain rs where "sort_key (\<lambda>x. - fst x) rs = (s, c) # rest"
    by (auto simp: ranked_alt split: sum.splits)
  then have "sorted (map (\<lambda>x. - fst x) ((s, c) # rest))"
    by (metis sorted_sort_key)
  with assms(2) show ?thesis by auto
qed

lemma rank_loop_nonempty:
  "rank_loop e blob seen cs = Inr rs \<Longrightarrow> c \<in> set cs \<Longrightarrow> c \<notin> set seen \<Longrightarrow> rs \<noteq> []"
  by (induction cs arbitrary: seen rs) (auto split: if_splits sum.splits)

lemma ranked_nonempty:
  assumes "fst (collect_evidence payload) \<noteq> []" "ranked e payload = Inr rk"
  shows "rk \<noteq> []"
proof -
  from assms(1) obtain c where c: "c \<in> set (fst (collect_evidence payload))"
    by (cases "fst (collect_evidence payload)") auto
  from assms(2) obtain rs where rs: "rank_loop e (join [CHR 0x0A] (snd (collect_evidence payload))) []
      (fst (collect_evidence payload)) = Inr rs" and rk: "rk = sort_key (\<lambda>x. - fst x) rs"
    by (auto simp: ranked_alt split: sum.splits)
  from rank_loop_nonempty [OF rs c] have "rs \<noteq> []" by simp
  then have "length rk \<noteq> 0" unfolding rk by simp
  then show ?thesis by auto
qed

lemma infer_from_text_Some:
  "infer_from_text e payload = Inr (Some r) \<Longrightarrow>
     \<exists>s c rest. ranked e payload = Inr ((s, c) # rest) \<and> 10 \<le> s \<and> is_abs_dir e c = Inr True
        \<and> normalize_path e c = Inr r"
  by (auto simp: infer_from_text_def split: if_splits list.splits sum.splits)

lemma ranked_checked:
  assumes "ranked e payload = Inr ((s, c) # rest)"
  shows "\<exists>d. is_abs_dir e c = Inr d"
proof -
  have "(s, c) \<in> set ((s, c) # rest)" by simp
  from ranked_member [OF assms this] score_candidate_Inr show ?thesis by blast
qed

lemma infer_from_text_weak:
  assumes "ranked e payload = Inr ((s, c) # rest)" "s < 10 \<or> is_abs_dir e c \<noteq> Inr True"
  shows "infer_from_text e payload = Inr None"
proof -
  from ranked_checked [OF assms(1)] obtain d where d: "is_abs_dir e c = Inr d" by blast
  with assms show ?thesis by (auto simp: infer_from_text_def)
qed

lemma infer_project_path_Some:
  assumes "infer_project_path e payload = Inr (Some r)"
  shows "(\<exists>x. map_of payload ''project_path'' = Some (JStr x) \<and> is_abs_dir e x = Inr True
            \<and> normalize_path e x = Inr r)
       \<or> (\<exists>s c rest. ranked e payload = Inr ((s, c) # rest) \<and> 10 \<le> s
            \<and> is_abs_dir e c = Inr True \<and> normalize_path e c = Inr r
            \<and> c \<in> set (fst (collect_evidence payload))
            \<and> score_candidate e c (join [CHR 0x0A] (snd (collect_evidence payload))) = Inr s)"
proof (cases rule: has_valid_project_path_cases [of payload e])
  case (check_raises x ex)
  with assms show ?thesis by (simp add: infer_project_path_def)
next
  case (valid x)
  with assms show ?thesis by (auto simp: infer_project_path_def split: sum.splits)
next
  case invalid
  with assms have "infer_from_text e payload = Inr (Some r)"
    by (simp add: infer_project_path_invalid)
  then obtain s c rest where r: "ranked e payload = Inr ((s, c) # rest)" "10 \<le> s"
      "is_abs_dir e c = Inr True" "normalize_path e c = Inr r"
    using infer_from_text_Some by blast
  have "(s, c) \<in> set ((s, c) # rest)" by simp
  from ranked_member [OF r(1) this] r show ?thesis by blast
qed

lemma process_file_weak:
  assumes rd: "read_payload e st f = Some (JDict payload)"
    and rk: "ranked e payload = Inr ((s, c) # rest)"
    and weak: "s < 10 \<or> is_abs_dir e c \<noteq> Inr True"
  shows "snd (process_file e st f w v) = st
     \<and> (case has_valid_project_path e payload of
          Inl ex \<Rightarrow> fst (process_file e st f w v) = Inl ex
        | Inr b \<Rightarrow> \<exists>res. fst (process_file e st f w v) = Inr (''skipped'', res))
     \<and> (has_valid_project_path e payload = Inr False \<longrightarrow>
          process_file e st f w v = (Inr (''skipped'', None), st))"
proof (cases rule: has_valid_project_path_cases [of payload e])
  case (check_raises x ex)
  from process_file_raises [OF rd check_raises(1,2)] check_raises(3) show ?thesis by simp
next
  case (valid x)
  from normalize_after_check [OF valid(2)] obtain n where "normalize_path e x = Inr n" by blast
  from process_file_existing [OF rd valid(1,2) this] valid(3) show ?thesis by simp
next
  case invalid
  have "infer_from_text e payload = Inr None" using rk weak by (rule infer_from_text_weak)
  with process_file_infer [OF rd invalid] invalid show ?thesis by simp
qed

text \<open>
  Claim C4. Inference resolves only to the existing valid \<open>project_path\<close> or to the
  top-ranked candidate when its score is at least 10 and it passes the directory check.
  If the top-ranked candidate scores below 10 or does not pass the directory check, the
  ranking yields no candidate, the state stays as it was, and the record is skipped
  (unless the check of an existing \<open>project_path\<close> raised before the ranking, which
  ends the run); it is never updated.
\<close>

theorem threshold_correctness:
  "(infer_project_path e payload = Inr (Some r) \<longrightarrow>
      (\<exists>x. map_of payload ''project_path'' = Some (JStr x) \<and> is_abs_dir e x = Inr True
            \<and> normalize_path e x = Inr r)
      \<or> (\<exists>s c rest. ranked e payload = Inr ((s, c) # rest) \<and> 10 \<le> s
            \<and> is_abs_dir e c = Inr True \<and> normalize_path e c = Inr r
            \<and> c \<in> set (fst (collect_evidence payload))
            \<and> score_candidate e c (join [CHR 0x0A] (snd (collect_evidence payload))) = Inr s))
   \<and> (\<forall>s c rest. ranked e payload = Inr ((s, c) # rest)
          \<and> (s < 10 \<or> is_abs_dir e c \<noteq> Inr True) \<longrightarrow>
        (\<forall>x \<in> set rest. fst x \<le> s)
        \<and> infer_from_text e payload = Inr None
        \<and> (read_payload e st f = Some (JDict payload) \<longrightarrow>
             snd (process_file e st f w v) = st
             \<and> (case has_valid_project_path e payload of
                  Inl ex \<Rightarrow> fst (process_file e st f w v) = Inl ex
                | Inr b \<Rightarrow> \<exists>res. fst (process_file e st f w v) = Inr (''skipped'', res))
             \<and> (has_valid_project_path e payload = Inr False \<longrightarrow>
                  process_file e st f w v = (Inr (''skipped'', None), st))))"
proof -
  have a: "infer_project_path e payload = Inr (Some r) \<longrightarrow>
      (\<exists>x. map_of payload ''project_path'' = Some (JStr x) \<and> is_abs_dir e x = Inr True
            \<and> normalize_path e x = Inr r)
      \<or> (\<exists>s c rest. ranked e payload = Inr ((s, c) # rest) \<and> 10 \<le> s
            \<and> is_abs_dir e c = Inr True \<and> normalize_path e c = Inr r
            \<and> c \<in> set (fst (collect_evidence payload))
            \<and> score_candidate e c (join [CHR 0x0A] (snd (collect_evidence payload))) = Inr s)"
    using infer_project_path_Some [of e payload r] by blast
  have b: "(\<forall>x \<in> set rest. fst x \<le> s)
        \<and> infer_from_text e payload = Inr None
        \<and> (read_payload e st f = Some (JDict payload) \<longrightarrow>
             snd (process_file e st f w v) = st
             \<and> (case has_valid_project_path e payload of
                  Inl ex \<Rightarrow> fst (process_file e st f w v) = Inl ex
                | Inr b \<Rightarrow> \<exists>res. fst (process_file e st f w v) = Inr (''skipped'', res))
             \<and> (has_valid_project_path e payload = Inr False \<longrightarrow>
                  process_file e st f w v = (Inr (''skipped'', None), st)))"
    if h: "ranked e payload = Inr ((s, c) # rest) \<and> (s < 10 \<or> is_abs_dir e c \<noteq> Inr True)"
    for s c rest
  proof -
    from h have rk: "ranked e payload = Inr ((s, c) # rest)"
      and weak: "s < 10 \<or> is_abs_dir e c \<noteq> Inr True" by auto
    have "\<forall>x \<in> set rest. fst x \<le> s" using ranked_top [OF rk] by blast
    moreover have "infer_from_text e payload = Inr None"
      using rk weak by (rule infer_from_text_weak)
    moreover have "read_payload e st f = Some (JDict payload) \<longrightarrow>
             snd (process_file e st f w v) = st
             \<and> (case has_valid_project_path e payload of
                  Inl ex \<Rightarrow> fst (process_file e st f w v) = Inl ex
                | Inr b \<Rightarrow> \<exists>res. fst (process_file e st f w v) = Inr (''skipped'', res))
             \<and> (has_valid_project_path e payload = Inr False \<longrightarrow>
                  process_file e st f w v = (Inr (''skipped'', None), st))"
      using process_file_weak [OF _ rk weak] by blast
    ultimately show ?thesis by blast
  qed
  from a b show ?thesis by blast
qed

theorem threshold_correctness_witness:
  "ranked (demo_env [] Written) demo_payload = Inr [(20, ''/p'')]
   \<and> is_abs_dir (demo_env [] Written) ''/p'' = Inr False
   \<and> process_file (demo_env [] Written) demo_state ''context-a.json'' True False
       = (Inr (''skipped'', None), demo_state)
   \<and> infer_project_path (demo_env [''/p''] Written) demo_payload = Inr (Some ''/p'')
   \<and> ranked (demo_env [''/p''] Written) demo_payload = Inr [(30, ''/p'')]"
proof -
  have rk: "ranked (demo_env [] Written) demo_payload = Inr ((20, ''/p'') # [])
      \<and> (20 < (10::int) \<or> is_abs_dir (demo_env [] Written) ''/p'' \<noteq> Inr True)"
    by (simp add: demo_ranked demo_is_abs_dir)
  have rd: "read_payload (demo_env [] Written) demo_state ''context-a.json'' = Some (JDict demo_payload)"
    by (rule demo_read)
  have inf: "infer_project_path (demo_env [''/p''] Written) demo_payload = Inr (Some ''/p'')"
    by (simp add: infer_project_path_invalid demo_invalid demo_infer)
  from threshold_correctness [of "demo_env [] Written" demo_payload "''/p''" demo_state
      "''context-a.json''" True False]
  have "\<forall>s c rest. ranked (demo_env [] Written) demo_payload = Inr ((s, c) # rest)
          \<and> (s < 10 \<or> is_abs_dir (demo_env [] Written) c \<noteq> Inr True) \<longrightarrow>
        (read_payload (demo_env [] Written) demo_state ''context-a.json'' = Some (JDict demo_payload) \<longrightarrow>
             (has_valid_project_path (demo_env [] Written) demo_payload = Inr False \<longrightarrow>
                  process_file (demo_env [] Written) demo_state ''context-a.json'' True False
                    = (Inr (''skipped'', None), demo_state)))"
    by blast
  from this [rule_format, OF rk rd demo_invalid] rk inf show ?thesis
    by (simp add: demo_ranked demo_is_abs_dir)
qed

subsection \<open>Dispositions\<close>

text \<open>
  Claim C5. For a record whose \<open>project_path\<close> is a string that passes the directory
  check, processing returns \<open>skipped\<close> with the normalised existing value and leaves the
  whole state as it was, in dry-run and in write mode, whatever else the record holds;
  the file still decodes to the same record.
\<close>

theorem existing_project_path_authoritative:
  "read_payload e st f = Some (JDict payload) \<Longrightarrow>
   map_of payload ''project_path'' = Some (JStr x) \<Longrightarrow> is_abs_dir e x = Inr True \<Longrightarrow>
     (\<exists>n. normalize_path e x = Inr n
          \<and> process_file e st f w v = (Inr (''skipped'', Some n), st))
     \<and> read_payload e (snd (process_file e st f w v)) f = Some (JDict payload)"
proof -
  assume rd: "read_payload e st f = Some (JDict payload)"
    and x: "map_of payload ''project_path'' = Some (JStr x)" "is_abs_dir e x = Inr True"
  from normalize_after_check [OF x(2)] obtain n where n: "normalize_path e x = Inr n" by blast
  from process_file_existing [OF rd x n] n rd show ?thesis by simp
qed

theorem existing_project_path_authoritative_witness:
  "read_payload (demo_env [''/p''] Written) demo_state' ''context-a.json'' = Some (JDict demo_payload')
   \<and> map_of demo_payload' ''project_path'' = Some (JStr ''/p'')
   \<and> is_abs_dir (demo_env [''/p''] Written) ''/p'' = Inr True
   \<and> process_file (demo_env [''/p''] Written) demo_state' ''context-a.json'' True True
       = (Inr (''skipped'', Some ''/p''), demo_state')"
proof -
  have h1: "read_payload (demo_env [''/p''] Written) demo_state' ''context-a.json''
      = Some (JDict demo_payload')" by (rule demo_read')
  have h2: "map_of demo_payload' ''project_path'' = Some (JStr ''/p'')"
    by (simp add: demo_payload'_def)
  have h3: "is_abs_dir (demo_env [''/p''] Written) ''/p'' = Inr True" by (simp add: demo_is_abs_dir)
  from existing_project_path_authoritative [OF h1 h2 h3, of True True] h1 h2 h3
  show ?thesis by (simp add: demo_normalize)
qed

lemma main_disk:
  "disk (snd (main e w v st)) = disk (snd (snd (run_files e w v st)))"
  by (simp add: main_def Let_def split: prod.splits option.splits)

text \<open>
  Claim C7. In dry-run mode the disk is the same after processing a file as before,
  whatever status is returned (and also when an exception ends the processing), and so
  it is after the loop over all files and after the whole run.
\<close>

theorem dry_run_leaves_disk:
  "disk (snd (process_file e st f False v)) = disk st
   \<and> disk (snd (snd (run_files e False v st))) = disk st
   \<and> disk (snd (main e False v st)) = disk st"
  by (simp add: process_file_dry_disk main_disk run_files_def main_loop_dry_disk)

text \<open>
  Claim C8, as the code has it. Where inference succeeds and, in write mode, the
  serialisation or the write fails, the status is \<open>failed\<close> and no path is returned. If
  the serialisation fails or the file cannot be opened, the state is as it was. If the
  write fails behind the open, the file holds the part of the new text that was written.
\<close>

theorem write_failure_disposition:
  "read_payload e st f = Some (JDict payload) \<Longrightarrow>
   has_valid_project_path e payload = Inr False \<Longrightarrow>
   infer_project_path e payload = Inr (Some r) \<Longrightarrow> r \<noteq> [] \<Longrightarrow>
     (dumps e (JDict (AList.update ''project_path'' (JStr r) payload)) = None \<longrightarrow>
        process_file e st f True v = (Inr (''failed'', None), st))
     \<and> (\<forall>t. dumps e (JDict (AList.update ''project_path'' (JStr r) payload)) = Some t \<longrightarrow>
          (write_outcome_of e f (t @ [CHR 0x0A]) = OpenFailed \<longrightarrow>
             process_file e st f True v = (Inr (''failed'', None), st))
          \<and> (\<forall>n. write_outcome_of e f (t @ [CHR 0x0A]) = WriteFailed n \<longrightarrow>
                process_file e st f True v
                  = (Inr (''failed'', None),
                     st\<lparr>disk := (disk st)(f \<mapsto> take n (t @ [CHR 0x0A]))\<rparr>)))"
proof -
  assume rd: "read_payload e st f = Some (JDict payload)"
    and inv: "has_valid_project_path e payload = Inr False"
    and inf: "infer_project_path e payload = Inr (Some r)" and ne: "r \<noteq> []"
  have "infer_from_text e payload = Inr (Some r)" using inf inv by (simp add: infer_project_path_invalid)
  then have "process_file e st f True v = store_inferred e st f True v payload r"
    using ne by (simp add: process_file_infer [OF rd inv])
  then show ?thesis
    by (simp add: store_inferred_def write_text_def Let_def)
qed

theorem write_failure_disposition_witness:
  "infer_project_path (demo_env [''/p''] OpenFailed) demo_payload = Inr (Some ''/p'')
   \<and> dumps (demo_env [''/p''] OpenFailed) (JDict (AList.update ''project_path'' (JStr ''/p'') demo_payload))
       = Some ''T1''
   \<and> process_file (demo_env [''/p''] OpenFailed) demo_state ''context-a.json'' True False
       = (Inr (''failed'', None), demo_state)"
proof -
  let ?e = "demo_env [''/p''] OpenFailed"
  have rd: "read_payload ?e demo_state ''context-a.json'' = Some (JDict demo_payload)"
    by (rule demo_read)
  have inf: "infer_project_path ?e demo_payload = Inr (Some ''/p'')"
    by (simp add: infer_project_path_invalid demo_invalid demo_infer)
  have ne: "''/p'' \<noteq> []" by simp
  have d: "dumps ?e (JDict (AList.update ''project_path'' (JStr ''/p'') demo_payload)) = Some ''T1''"
    by (simp add: demo_update demo_env_simps demo_dumps_def)
  have o: "write_outcome_of ?e ''context-a.json'' (''T1'' @ [CHR 0x0A]) = OpenFailed"
    by (simp add: demo_env_simps)
  from write_failure_disposition [OF rd demo_invalid inf ne, of False] d o inf
  show ?thesis by simp
qed

text \<open>
  Against C8 as it is worded: inference succeeds, the write fails behind the open, the
  status is \<open>failed\<close>, and the file that held \<open>T0\<close> is empty afterwards.
\<close>

theorem write_failure_truncates_counterexample:
  "infer_project_path (demo_env [''/p''] (WriteFailed 0)) demo_payload = Inr (Some ''/p'')
   \<and> fst (process_file (demo_env [''/p''] (WriteFailed 0)) demo_state ''context-a.json'' True False)
       = Inr (''failed'', None)
   \<and> disk demo_state ''context-a.json'' = Some ''T0''
   \<and> disk (snd (process_file (demo_env [''/p''] (WriteFailed 0)) demo_state ''context-a.json''
        True False)) ''context-a.json'' = Some ''''"
proof -
  have p: "process_file (demo_env [''/p''] (WriteFailed 0)) demo_state ''context-a.json'' True False
      = (Inr (''failed'', None), demo_state\<lparr>disk := (disk demo_state)(''context-a.json'' \<mapsto> [])\<rparr>)"
    by (simp add: demo_process demo_store)
  have d: "disk demo_state ''context-a.json'' = Some ''T0''" by (simp add: demo_state_def)
  have i: "infer_project_path (demo_env [''/p''] (WriteFailed 0)) demo_payload = Inr (Some ''/p'')"
    by (simp add: infer_project_path_invalid demo_invalid demo_infer)
  show ?thesis unfolding p using d i by simp
qed


lemma demo_run:
  "run_files (demo_env [''/p''] Written) True False demo_state
     = (None, \<lparr>scanned = 1, updated = 1, skipped = 0, failed = 0\<rparr>, demo_state')"
  by (simp add: run_files_def demo_env_simps demo_process demo_store Let_def)




text \<open>
  Claim C10, as the code has it. In dry-run mode the status is \<open>failed\<close> exactly when
  the file cannot be read, or its content fails to parse, or the content does not decode
  to a record-shaped value.
\<close>

theorem dry_run_failed_iff_unparsed:
  "(\<exists>r. fst (process_file e st f False v) = Inr (''failed'', r))
     \<longleftrightarrow> disk st f = None \<or> spec_unparsed_content e st f"
proof -
  have "(\<not> (\<exists>payload. read_payload e st f = Some (JDict payload)))
      \<longleftrightarrow> disk st f = None \<or> spec_unparsed_content e st f"
    by (auto simp: read_payload_def spec_unparsed_content_def split: option.splits json.splits)
  with process_file_dry_failed [of e st f v] show ?thesis by simp
qed

theorem dry_run_failed_iff_unparsed_witness:
  "disk demo_state ''context-a.json'' \<noteq> None
   \<and> \<not> spec_unparsed_content (demo_env [''/p''] Written) demo_state ''context-a.json''
   \<and> \<not> (\<exists>r. fst (process_file (demo_env [''/p''] Written) demo_state ''context-a.json'' False False)
          = Inr (''failed'', r))"
proof -
  have a: "disk demo_state ''context-a.json'' \<noteq> None" by (simp add: demo_state_def)
  have b: "\<not> spec_unparsed_content (demo_env [''/p''] Written) demo_state ''context-a.json''"
    by (simp add: spec_unparsed_content_def demo_state_def demo_env_simps demo_loads_def)
  from dry_run_failed_iff_unparsed [of "demo_env [''/p''] Written" demo_state "''context-a.json''" False]
    a b show ?thesis by simp
qed

text \<open>
  Against C10 as it is worded: a listed file that cannot be read is \<open>failed\<close> in a dry
  run, and no content of it failed to parse.
\<close>

theorem unreadable_file_failed_counterexample:
  "process_file (demo_env [] Written) demo_unreadable_state ''context-a.json'' False False
     = (Inr (''failed'', None), demo_unreadable_state)
   \<and> \<not> spec_unparsed_content (demo_env [] Written) demo_unreadable_state ''context-a.json''"
  by (simp add: process_file_unreadable read_payload_def spec_unparsed_content_def
      demo_unreadable_state_def)

subsection \<open>Idempotence\<close>

paragraph \<open>One file at a time\<close>

lemma store_inferred_frame:
  "g \<noteq> f \<Longrightarrow> disk (snd (store_inferred e s f w v p r)) g = disk s g"
  by (simp add: store_inferred_def write_text_def Let_def split: option.splits write_outcome.splits)

lemma process_file_frame:
  "g \<noteq> f \<Longrightarrow> disk (snd (process_file e st f w v)) g = disk st g"
  by (cases rule: process_file_cases [of e st f]) (simp_all add: store_inferred_frame)

lemma process_file_raise_state:
  "fst (process_file e st f w v) = Inl ex \<Longrightarrow>
     (\<forall>s w' v'. disk s f = disk st f \<longrightarrow> process_file e s f w' v' = (Inl ex, s))"
proof (cases rule: process_file_cases [of e st f])
  case (store payload r)
  assume "fst (process_file e st f w v) = Inl ex"
  with store(5) [of st w v] store_inferred_status [of e st f w v payload r]
  show ?thesis by simp
qed auto

paragraph \<open>A second run\<close>

lemma store_inferred_second:
  assumes codec: "codec_roundtrip e" and torn: "torn_text_unparsed e"
    and dir: "is_abs_dir e r = Inr True"
    and d: "disk s f = disk (snd (store_inferred e st f True v payload r)) f"
    and same: "\<And>s w v. disk s f = disk st f \<Longrightarrow>
         process_file e s f w v = store_inferred e s f w v payload r"
  shows "snd (process_file e s f True v') = s
      \<and> (fst (process_file e s f True v') = Inr (''failed'', None)
          \<or> (\<exists>n. fst (process_file e s f True v') = Inr (''skipped'', Some n)))
      \<and> (fst (store_inferred e st f True v payload r) = Inr (''updated'', Some r) \<longrightarrow>
           (\<exists>n. fst (process_file e s f True v') = Inr (''skipped'', Some n)))"
proof -
  let ?p' = "AList.update ''project_path'' (JStr r) payload"
  have key: "map_of ?p' ''project_path'' = Some (JStr r)" by (simp add: update_conv')
  from normalize_after_check [OF dir] obtain n where n: "normalize_path e r = Inr n" by blast
  have settled: "process_file e s f True v' = (Inr (''skipped'', Some n), s)"
    if "read_payload e s f = Some (JDict ?p')"
    using that key dir n by (rule process_file_existing)
  show ?thesis
  proof (cases "dumps e (JDict ?p')")
    case None
    then have "store_inferred e st f True v payload r = (Inr (''failed'', None), st)"
      by (simp add: store_inferred_def)
    moreover from this d have "process_file e s f True v' = store_inferred e s f True v' payload r"
      by (simp add: same)
    moreover have "store_inferred e s f True v' payload r = (Inr (''failed'', None), s)"
      using None by (simp add: store_inferred_def)
    ultimately show ?thesis by simp
  next
    case (Some t)
    let ?text = "t @ [CHR 0x0A]"
    have ld: "loads e ?text = Some (JDict ?p')" using codec Some by (simp add: codec_roundtrip_def)
    show ?thesis
    proof (cases "write_outcome_of e f ?text")
      case Written
      then have "disk (snd (store_inferred e st f True v payload r)) f = Some ?text"
        using Some by (simp add: store_inferred_def write_text_def)
      with d ld have "read_payload e s f = Some (JDict ?p')" by (simp add: read_payload_def)
      from settled [OF this] show ?thesis by simp
    next
      case OpenFailed
      then have "store_inferred e st f True v payload r = (Inr (''failed'', None), st)"
        using Some by (simp add: store_inferred_def write_text_def)
      moreover from this d have "process_file e s f True v' = store_inferred e s f True v' payload r"
        by (simp add: same)
      moreover have "store_inferred e s f True v' payload r = (Inr (''failed'', None), s)"
        using Some OpenFailed by (simp add: store_inferred_def write_text_def)
      ultimately show ?thesis by simp
    next
      case (WriteFailed k)
      then have st1: "store_inferred e st f True v payload r
          = (Inr (''failed'', None), st\<lparr>disk := (disk st)(f \<mapsto> take k ?text)\<rparr>)"
        using Some by (simp add: store_inferred_def write_text_def)
      then have rd: "read_payload e s f = loads e (take k ?text)"
        using d by (simp add: read_payload_def)
      from torn WriteFailed
      have "loads e (take k ?text) = None \<or> loads e (take k ?text) = loads e ?text"
        unfolding torn_text_unparsed_def by blast
      then show ?thesis
      proof
        assume "loads e (take k ?text) = None"
        with rd have "process_file e s f True v' = (Inr (''failed'', None), s)"
          by (simp add: process_file_unreadable)
        with st1 show ?thesis by simp
      next
        assume "loads e (take k ?text) = loads e ?text"
        with rd ld have "read_payload e s f = Some (JDict ?p')" by simp
        from settled [OF this] st1 show ?thesis by simp
      qed
    qed
  qed
qed

lemma process_file_second:
  assumes codec: "codec_roundtrip e" and torn: "torn_text_unparsed e"
    and canon: "resolve_keeps_dirs e"
    and d: "disk s f = disk (snd (process_file e st f True v)) f"
  shows "snd (process_file e s f True v') = s
     \<and> (\<forall>res. fst (process_file e s f True v') \<noteq> Inr (''updated'', res))
     \<and> (\<forall>ex. fst (process_file e s f True v') = Inl ex \<longrightarrow>
           fst (process_file e st f True v) = Inl ex)
     \<and> ((\<exists>res. fst (process_file e st f True v) = Inr (''updated'', res)) \<longrightarrow>
          (\<exists>res. fst (process_file e s f True v') = Inr (''skipped'', res)))"
proof (cases rule: process_file_cases [of e st f])
  case unreadable
  then show ?thesis using d by simp
next
  case (raises payload ex)
  then show ?thesis using d by simp
next
  case (existing payload x n)
  then show ?thesis using d by simp
next
  case (none payload)
  then show ?thesis using d by simp
next
  case (store payload r)
  from infer_from_text_Some [OF store(3)] canon have dir: "is_abs_dir e r = Inr True"
    unfolding resolve_keeps_dirs_def by blast
  have p: "process_file e st f True v = store_inferred e st f True v payload r"
    by (simp add: store(5))
  from store_inferred_second [OF codec torn dir d [unfolded p] store(5), of v']
    store_inferred_status [of e st f True v payload r] p
  show ?thesis by auto
qed

paragraph \<open>The loop over the files\<close>

lemma main_loop_frame:
  "g \<notin> set fs \<Longrightarrow> disk (snd (snd (main_loop e w v fs (c, st)))) g = disk st g"
proof (induction fs arbitrary: c st)
  case Nil
  then show ?case by simp
next
  case (Cons f fs)
  obtain res st1 where p: "process_file e st f w v = (res, st1)" by (metis prod.exhaust)
  from Cons.prems have gf: "g \<noteq> f" and gfs: "g \<notin> set fs" by auto
  have "disk st1 g = disk st g" using process_file_frame [OF gf, of e st w v] p by simp
  with Cons.IH [OF gfs] p show ?case by (auto simp: Let_def split: sum.splits prod.splits)
qed

lemma main_loop_second:
  assumes codec: "codec_roundtrip e" and torn: "torn_text_unparsed e"
    and canon: "resolve_keeps_dirs e"
  shows "distinct fs \<Longrightarrow>
     \<forall>g \<in> set fs. disk s2 g = disk (snd (snd (main_loop e True v fs (c, st)))) g \<Longrightarrow>
       snd (snd (main_loop e True v' fs (c', s2))) = s2
       \<and> updated (fst (snd (main_loop e True v' fs (c', s2)))) = updated c'
       \<and> (\<forall>f. (f, ''updated'') \<in> set (main_log e True v fs st) \<longrightarrow>
              (f, ''skipped'') \<in> set (main_log e True v' fs s2))"
proof (induction fs arbitrary: c st c')
  case Nil
  then show ?case by simp
next
  case (Cons f fs)
  from Cons.prems(1) have dist: "distinct fs" and nf: "f \<notin> set fs" by auto
  obtain res sta where p: "process_file e st f True v = (res, sta)" by (metis prod.exhaust)
  show ?case
  proof (cases res)
    case (Inl ex)
    with p have "fst (process_file e st f True v) = Inl ex" by simp
    from process_file_raise_state [OF this]
    have same: "\<And>s w' v'. disk s f = disk st f \<Longrightarrow> process_file e s f w' v' = (Inl ex, s)"
      by blast
    from same [of st True v] p have "sta = st" by simp
    with p Inl Cons.prems(2) have "disk s2 f = disk st f" by (simp add: Let_def)
    from same [OF this, of True v'] p Inl show ?thesis by (simp add: Let_def)
  next
    case (Inr sr)
    obtain status r where sr: "sr = (status, r)" by (metis prod.exhaust)
    obtain c1 where step: "main_loop e True v (f # fs) (c, st) = main_loop e True v fs (c1, sta)"
      using p Inr sr by (simp add: Let_def)
    have "disk (snd (snd (main_loop e True v fs (c1, sta)))) f = disk sta f"
      using nf by (rule main_loop_frame)
    with Cons.prems(2) step p have d: "disk s2 f = disk (snd (process_file e st f True v)) f"
      by simp
    note sec = process_file_second [OF codec torn canon d, of v']
    obtain res2 where p2: "process_file e s2 f True v' = (res2, s2)"
      using sec by (cases "process_file e s2 f True v'") auto
    have "\<forall>ex. res2 \<noteq> Inl ex" using sec p2 p Inr by auto
    then obtain status2 r2 where res2: "res2 = Inr (status2, r2)"
      by (cases res2) auto
    have nu: "status2 \<noteq> ''updated''" using sec p2 res2 by auto
    have sk: "status = ''updated'' \<Longrightarrow> status2 = ''skipped''"
      using sec p2 res2 p Inr sr by auto
    obtain c2 where step2: "main_loop e True v' (f # fs) (c', s2) = main_loop e True v' fs (c2, s2)"
      and c2: "updated c2 = updated c'"
      using p2 res2 nu by (simp add: Let_def)
    have "\<forall>g \<in> set fs. disk s2 g = disk (snd (snd (main_loop e True v fs (c1, sta)))) g"
      using Cons.prems(2) step by simp
    note IH = Cons.IH [OF dist this, of c2]
    have lg1: "main_log e True v (f # fs) st = (f, status) # main_log e True v fs sta"
      using p Inr sr by simp
    have lg2: "main_log e True v' (f # fs) s2 = (f, status2) # main_log e True v' fs s2"
      using p2 res2 by simp
    from IH c2 sk show ?thesis unfolding step2 lg1 lg2 by auto
  qed
qed

text \<open>
  Claim C6. Let the decoder read back what the encoder wrote, let a text cut short by a
  failed write either not decode or decode like the whole text, let the canonical form
  of a directory be a directory, and let the listing name each file once. Then a second
  run in write mode, on the state the first run left, changes no file, counts no
  \<open>updated\<close> record, and returns \<open>skipped\<close> for every file for which the first run
  returned \<open>updated\<close>. This holds as well when a path query raises: both runs then end
  at the same file.
\<close>

theorem write_mode_idempotent:
  assumes codec: "codec_roundtrip e" and torn: "torn_text_unparsed e"
    and canon: "resolve_keeps_dirs e" and dist: "distinct (glob e)"
  shows "disk (snd (main e True v' (snd (main e True v st)))) = disk (snd (main e True v st))
     \<and> updated (fst (snd (run_files e True v' (snd (main e True v st))))) = 0
     \<and> (\<forall>f. (f, ''updated'') \<in> set (run_log e True v st) \<longrightarrow>
            (f, ''skipped'') \<in> set (run_log e True v' (snd (main e True v st))))"
proof -
  let ?fs = "sort (glob e)"
  let ?c0 = "\<lparr>scanned = 0, updated = 0, skipped = 0, failed = 0\<rparr>"
  let ?st1 = "snd (main e True v st)"
  have dfs: "distinct ?fs" using dist by simp
  have "disk ?st1 = disk (snd (snd (main_loop e True v ?fs (?c0, st))))"
    by (simp add: main_disk run_files_def)
  then have "\<forall>g \<in> set ?fs. disk ?st1 g = disk (snd (snd (main_loop e True v ?fs (?c0, st)))) g"
    by simp
  note second = main_loop_second [OF codec torn canon dfs this, of v' ?c0]
  have a: "disk (snd (main e True v' ?st1)) = disk ?st1"
    using second by (simp add: main_disk run_files_def)
  have b: "updated (fst (snd (run_files e True v' ?st1))) = 0"
    using second by (simp add: run_files_def)
  have c: "\<forall>f. (f, ''updated'') \<in> set (run_log e True v st) \<longrightarrow>
            (f, ''skipped'') \<in> set (run_log e True v' ?st1)"
    using second by (simp add: run_log_def)
  from a b c show ?thesis by blast
qed

lemma demo_codec: "codec_roundtrip (demo_env dirs wo)"
  by (auto simp: codec_roundtrip_def demo_env_simps demo_dumps_def demo_loads_def
      split: if_splits)

lemma demo_canon: "resolve_keeps_dirs (demo_env dirs wo)"
  by (auto simp: resolve_keeps_dirs_def normalize_path_def is_abs_dir_def demo_env_simps
      split: if_splits sum.splits)

lemma demo_main_disk:
  "disk (snd (main (demo_env [''/p''] Written) True False demo_state)) = disk demo_state'"
  by (simp add: main_disk demo_run)

theorem write_mode_idempotent_witness:
  "codec_roundtrip (demo_env [''/p''] Written) \<and> torn_text_unparsed (demo_env [''/p''] Written)
   \<and> resolve_keeps_dirs (demo_env [''/p''] Written) \<and> distinct (glob (demo_env [''/p''] Written))
   \<and> run_log (demo_env [''/p''] Written) True False demo_state = [(''context-a.json'', ''updated'')]
   \<and> (''context-a.json'', ''skipped'')
       \<in> set (run_log (demo_env [''/p''] Written) True False
                (snd (main (demo_env [''/p''] Written) True False demo_state)))
   \<and> disk (snd (main (demo_env [''/p''] Written) True False
              (snd (main (demo_env [''/p''] Written) True False demo_state))))
       = disk (snd (main (demo_env [''/p''] Written) True False demo_state))
   \<and> disk (snd (main (demo_env [''/p''] Written) True False demo_state)) ''context-a.json''
       = Some (''T1'' @ [CHR 0x0A])"
proof -
  let ?e = "demo_env [''/p''] Written"
  have h1: "codec_roundtrip ?e" by (rule demo_codec)
  have h2: "torn_text_unparsed ?e" by (simp add: torn_text_unparsed_def demo_env_simps)
  have h3: "resolve_keeps_dirs ?e" by (rule demo_canon)
  have h4: "distinct (glob ?e)" by (simp add: demo_env_simps)
  have lg: "run_log ?e True False demo_state = [(''context-a.json'', ''updated'')]"
    by (simp add: run_log_def demo_env_simps demo_process demo_store)
  have dk: "disk (snd (main ?e True False demo_state)) ''context-a.json'' = Some (''T1'' @ [CHR 0x0A])"
    by (simp add: demo_main_disk demo_state'_def)
  from write_mode_idempotent [OF h1 h2 h3 h4, of False False demo_state] h1 h2 h3 h4 lg dk
  show ?thesis by simp
qed

end
